theory Spec2Isabelle
  imports Complex_Main
begin

section \<open>JavaScript values seen by the hooks of \<^verbatim>\<open>src/utils.js\<close>\<close>

text \<open>
  The fragment of JavaScript values that the async tracker can tell apart: the primitives
  (with their truthiness), plain objects with data properties, and native promises.
  A native promise is modelled together with the way it will settle: it fulfils with a
  value, rejects with a reason, or stays pending for ever. Function values are not part of
  the fragment, so the only callable \<^verbatim>\<open>then\<close> is the one of a native promise; a
  \<^verbatim>\<open>then\<close> property of a plain object is data. In a property list the first binding of
  a key is the property's value. Numbers are idealised as reals, with \<^verbatim>\<open>NaN\<close> apart.
\<close>

datatype jsval =
    Undefined
  | Null
  | Bool bool
  | Num real
  | NaN
  | Str string
  | Obj "(string \<times> jsval) list"
  | Promise settlement
and settlement =
    Fulfils jsval
  | Rejects jsval
  | Pends

text \<open>Truthiness, as \<^verbatim>\<open>!v\<close> and \<^verbatim>\<open>c ? a : b\<close> read it.\<close>

fun truthy :: "jsval \<Rightarrow> bool" where
  "truthy Undefined = False"
| "truthy Null = False"
| "truthy (Bool b) = b"
| "truthy (Num r) = (r \<noteq> 0)"
| "truthy NaN = False"
| "truthy (Str s) = (s \<noteq> [])"
| "truthy (Obj ps) = True"
| "truthy (Promise s) = True"

datatype js_error =
    MustBePromise  \<comment> \<open>\<^verbatim>\<open>new Error("The argument passed to useAsync().run must be a promise. ...")\<close>\<close>
  | TypeError      \<comment> \<open>raised by the runtime: a property of null or undefined, or a call of a non-function\<close>

text \<open>What reading \<^verbatim>\<open>v.then\<close> yields: the native method of a promise, or a data value.\<close>

datatype property = NativeThen | Data jsval

fun get_then :: "jsval \<Rightarrow> js_error + property" where
  "get_then Undefined = Inl TypeError"
| "get_then Null = Inl TypeError"
| "get_then (Obj ps) = Inr (Data (case map_of ps ''then'' of None \<Rightarrow> Undefined | Some v \<Rightarrow> v))"
| "get_then (Promise s) = Inr NativeThen"
| "get_then v = Inr (Data Undefined)"

fun truthy_property :: "property \<Rightarrow> bool" where
  "truthy_property NativeThen = True"
| "truthy_property (Data v) = truthy v"

text \<open>
  The promise resolution procedure applied to the value a \<^verbatim>\<open>then\<close> handler returns:
  a promise is adopted, anything else fulfils the derived promise.
\<close>

fun resolve_value :: "jsval \<Rightarrow> settlement" where
  "resolve_value (Promise (Fulfils v)) = resolve_value v"
| "resolve_value (Promise (Rejects e)) = Rejects e"
| "resolve_value (Promise Pends) = Pends"
| "resolve_value v = Fulfils v"

section \<open>The async tracker: \<^verbatim>\<open>useSafeDispatch\<close> and \<^verbatim>\<open>useAsync\<close>\<close>

text \<open>
  A state object and an action are objects, read here as finite maps from property names
  to values. A reaction is a \<^verbatim>\<open>then\<close> handler of \<^verbatim>\<open>run\<close> registered on a promise that
  will settle, together with the argument the handler will receive.

  A dispatch applies the reducer at once. React queues the update and applies the queued
  updates in order before the next render; the reducer is pure and the liveness flag is
  read when the dispatch is called, so the state at every render is the same.
\<close>

type_synonym js_object = "string \<rightharpoonup> jsval"

datatype reaction = OnFulfilled jsval | OnRejected jsval

record tracker =
  state :: js_object              \<comment> \<open>the state of \<^verbatim>\<open>React.useReducer\<close>\<close>
  initialStateRef :: js_object    \<comment> \<open>\<^verbatim>\<open>initialStateRef.current\<close>\<close>
  mounted :: bool                 \<comment> \<open>\<^verbatim>\<open>mounted.current\<close> of \<^verbatim>\<open>useSafeDispatch\<close>\<close>
  reactions :: "reaction list"    \<comment> \<open>handlers registered by \<^verbatim>\<open>run\<close> that have not fired yet\<close>

definition defaultInitialState :: js_object where
  "defaultInitialState = [''status'' \<mapsto> Str ''idle'', ''data'' \<mapsto> Null, ''error'' \<mapsto> Null]"

text \<open>The reducer \<^verbatim>\<open>(s, a) => ({...s, ...a})\<close>.\<close>

definition reducer :: "js_object \<Rightarrow> js_object \<Rightarrow> js_object" where
  "reducer s a = s ++ a"

definition setState :: "js_object \<Rightarrow> tracker \<Rightarrow> tracker" where
  "setState a t = t\<lparr>state := reducer (state t) a\<rparr>"

text \<open>\<^verbatim>\<open>(...args) => (mounted.current ? dispatch(...args) : void 0)\<close>\<close>

definition useSafeDispatch :: "(js_object \<Rightarrow> tracker \<Rightarrow> tracker) \<Rightarrow> js_object \<Rightarrow> tracker \<Rightarrow> tracker" where
  "useSafeDispatch dispatch a t = (if mounted t then dispatch a t else t)"

definition safeSetState :: "js_object \<Rightarrow> tracker \<Rightarrow> tracker" where
  "safeSetState = useSafeDispatch setState"

text \<open>
  The first render: \<^verbatim>\<open>initialState\<close> is the caller's object of overrides (the empty map
  for a call without argument). The layout effect has not run yet, so \<^verbatim>\<open>mounted.current\<close>
  is still false.
\<close>

definition useAsync :: "js_object \<Rightarrow> tracker" where
  "useAsync initialState =
     (let initial = defaultInitialState ++ initialState
      in \<lparr>state = initial, initialStateRef = initial, mounted = False, reactions = []\<rparr>)"

text \<open>The layout effect of \<^verbatim>\<open>useSafeDispatch\<close> and its cleanup.\<close>

definition attach :: "tracker \<Rightarrow> tracker" where
  "attach t = t\<lparr>mounted := True\<rparr>"

definition detach :: "tracker \<Rightarrow> tracker" where
  "detach t = t\<lparr>mounted := False\<rparr>"

text \<open>Reading a destructured field of the state: an absent property reads as undefined.\<close>

definition field :: "string \<Rightarrow> tracker \<Rightarrow> jsval" where
  "field k t = (case state t k of None \<Rightarrow> Undefined | Some v \<Rightarrow> v)"

abbreviation status :: "tracker \<Rightarrow> jsval" where "status \<equiv> field ''status''"
abbreviation data :: "tracker \<Rightarrow> jsval" where "data \<equiv> field ''data''"
abbreviation error :: "tracker \<Rightarrow> jsval" where "error \<equiv> field ''error''"

definition isIdle :: "tracker \<Rightarrow> bool" where "isIdle t = (status t = Str ''idle'')"
definition isLoading :: "tracker \<Rightarrow> bool" where "isLoading t = (status t = Str ''pending'')"
definition isError :: "tracker \<Rightarrow> bool" where "isError t = (status t = Str ''rejected'')"
definition isSuccess :: "tracker \<Rightarrow> bool" where "isSuccess t = (status t = Str ''resolved'')"

text \<open>
  The two handlers that \<^verbatim>\<open>run\<close> passes to \<^verbatim>\<open>promise.then\<close>: each dispatches through
  \<^verbatim>\<open>safeSetState\<close> and returns its argument.
\<close>

definition onFulfilled :: "jsval \<Rightarrow> tracker \<Rightarrow> jsval \<times> tracker" where
  "onFulfilled d t = (d, safeSetState [''data'' \<mapsto> d, ''status'' \<mapsto> Str ''resolved''] t)"

definition onRejected :: "jsval \<Rightarrow> tracker \<Rightarrow> jsval \<times> tracker" where
  "onRejected e t = (e, safeSetState [''status'' \<mapsto> Str ''rejected'', ''error'' \<mapsto> e] t)"

text \<open>
  \<^verbatim>\<open>promise.then(onFulfilled, onRejected)\<close> on a native promise: the handler that will be
  called is queued as a reaction, and the derived promise settles by what that handler
  returns.
\<close>

fun react :: "settlement \<Rightarrow> reaction list" where
  "react (Fulfils d) = [OnFulfilled d]"
| "react (Rejects e) = [OnRejected e]"
| "react Pends = []"

fun derived :: "settlement \<Rightarrow> settlement" where
  "derived (Fulfils d) = resolve_value d"
| "derived (Rejects e) = resolve_value e"
| "derived Pends = Pends"

text \<open>
  \<^verbatim>\<open>run\<close>: the guard, the dispatch of \<^verbatim>\<open>{status: 'pending'}\<close>, the call of
  \<^verbatim>\<open>promise.then\<close>. The result is the thrown error or the returned value, and the
  tracker after the call.
\<close>

definition run :: "jsval \<Rightarrow> tracker \<Rightarrow> (js_error + jsval) \<times> tracker" where
  "run promise t =
     (if \<not> truthy promise then (Inl MustBePromise, t)
      else (case get_then promise of
        Inl e \<Rightarrow> (Inl e, t)
      | Inr p \<Rightarrow>
          (if \<not> truthy_property p then (Inl MustBePromise, t)
           else
             (let t1 = safeSetState [''status'' \<mapsto> Str ''pending''] t
              in (case (p, promise) of
                    (NativeThen, Promise s) \<Rightarrow>
                      (Inr (Promise (derived s)), t1\<lparr>reactions := reactions t1 @ react s\<rparr>)
                  | _ \<Rightarrow> (Inl TypeError, t1))))))"

definition setData :: "jsval \<Rightarrow> tracker \<Rightarrow> tracker" where
  "setData d = safeSetState [''data'' \<mapsto> d]"

definition setError :: "jsval \<Rightarrow> tracker \<Rightarrow> tracker" where
  "setError e = safeSetState [''error'' \<mapsto> e]"

definition reset :: "tracker \<Rightarrow> tracker" where
  "reset t = safeSetState (initialStateRef t) t"

text \<open>
  A queued reaction fires when its promise has settled: the handler runs and the reaction
  leaves the queue. Firing a reaction that is not queued does nothing.
\<close>

fun handler :: "reaction \<Rightarrow> tracker \<Rightarrow> tracker" where
  "handler (OnFulfilled d) t = snd (onFulfilled d t)"
| "handler (OnRejected e) t = snd (onRejected e t)"

definition settle :: "reaction \<Rightarrow> tracker \<Rightarrow> tracker" where
  "settle r t =
     (if r \<in> set (reactions t) then handler r (t\<lparr>reactions := remove1 r (reactions t)\<rparr>) else t)"

text \<open>Everything that can happen to a tracker, and a history of such events.\<close>

datatype event =
    Attach | Detach
  | Run jsval | SetData jsval | SetError jsval | Reset
  | Settle reaction

fun step :: "tracker \<Rightarrow> event \<Rightarrow> tracker" where
  "step t Attach = attach t"
| "step t Detach = detach t"
| "step t (Run p) = snd (run p t)"
| "step t (SetData d) = setData d t"
| "step t (SetError e) = setError e t"
| "step t Reset = reset t"
| "step t (Settle r) = settle r t"

definition exec :: "event list \<Rightarrow> tracker \<Rightarrow> tracker" where
  "exec evs t = foldl step t evs"

text \<open>
  Two predicates on arguments of \<^verbatim>\<open>run\<close>, used to state its contract: being a native
  promise, and being turned away by the guard \<^verbatim>\<open>!promise || !promise.then\<close>.
\<close>

fun awaitable :: "jsval \<Rightarrow> bool" where
  "awaitable (Promise s) = True"
| "awaitable v = False"

definition rejected_by_guard :: "jsval \<Rightarrow> bool" where
  "rejected_by_guard p =
     (\<not> truthy p \<or> (case get_then p of Inl e \<Rightarrow> False | Inr q \<Rightarrow> \<not> truthy_property q))"

definition statuses :: "jsval set" where
  "statuses = {Str ''idle'', Str ''pending'', Str ''rejected'', Str ''resolved''}"

section \<open>The grid helpers: \<^verbatim>\<open>updateGridState\<close> and \<^verbatim>\<open>updateGridCellState\<close>\<close>

text \<open>
  \<^verbatim>\<open>Math.random\<close> is the only effect of the grid helpers. The generator is the sequence of
  numbers it has yet to return; a call returns the first and leaves the rest. Cells and
  draws are idealised as real numbers, and the literal \<^verbatim>\<open>0.7\<close> as the fraction 7/10.
\<close>

type_synonym rng = "nat \<Rightarrow> real"

definition Math_random :: "rng \<Rightarrow> real \<times> rng" where
  "Math_random g = (g 0, \<lambda>n. g (Suc n))"

text \<open>
  \<^verbatim>\<open>xs.map((x, i) => ...)\<close> with a callback that draws random numbers: the elements are
  visited from index \<open>i\<close> on, left to right, and the generator is threaded through.
\<close>

fun array_map :: "('a \<Rightarrow> nat \<Rightarrow> rng \<Rightarrow> 'b \<times> rng) \<Rightarrow> nat \<Rightarrow> 'a list \<Rightarrow> rng \<Rightarrow> 'b list \<times> rng" where
  "array_map f i [] g = ([], g)"
| "array_map f i (x # xs) g =
     (let (y, g1) = f x i g;
          (ys, g2) = array_map f (Suc i) xs g1
      in (y # ys, g2))"

text \<open>\<^verbatim>\<open>cell => (Math.random() > 0.7 ? Math.random() * 100 : cell)\<close>\<close>

definition updateCell :: "real \<Rightarrow> nat \<Rightarrow> rng \<Rightarrow> real \<times> rng" where
  "updateCell cell cI g =
     (let (r, g1) = Math_random g
      in if r > 7 / 10
         then (let (r', g2) = Math_random g1 in (r' * 100, g2))
         else (cell, g1))"

definition updateGridState :: "real list list \<Rightarrow> rng \<Rightarrow> real list list \<times> rng" where
  "updateGridState grid = array_map (\<lambda>row rI. array_map updateCell 0 row) 0 grid"

text \<open>
  \<^verbatim>\<open>rI === row\<close>: an array index is strictly equal to a coordinate only when the
  coordinate is that number.
\<close>

fun strict_equals_index :: "nat \<Rightarrow> jsval \<Rightarrow> bool" where
  "strict_equals_index i (Num r) = (real i = r)"
| "strict_equals_index i v = False"

definition regenerate :: "jsval \<Rightarrow> real \<Rightarrow> nat \<Rightarrow> rng \<Rightarrow> real \<times> rng" where
  "regenerate column cell cI g =
     (if strict_equals_index cI column
      then (let (r, g1) = Math_random g in (r * 100, g1))
      else (cell, g))"

definition updateGridCellState :: "real list list \<Rightarrow> jsval \<times> jsval \<Rightarrow> rng \<Rightarrow> real list list \<times> rng" where
  "updateGridCellState grid = (\<lambda>(row, column).
     array_map (\<lambda>cells rI g.
       if strict_equals_index rI row
       then array_map (regenerate column) 0 cells g
       else (cells, g)) 0 grid)"

text \<open>Reading a cell, and the shape of a grid.\<close>

definition cell_at :: "real list list \<Rightarrow> nat \<Rightarrow> nat \<Rightarrow> real" where
  "cell_at grid r c = grid ! r ! c"

definition in_grid :: "real list list \<Rightarrow> nat \<Rightarrow> nat \<Rightarrow> bool" where
  "in_grid grid r c = (r < length grid \<and> c < length (grid ! r))"

definition same_shape :: "real list list \<Rightarrow> real list list \<Rightarrow> bool" where
  "same_shape a b = (map length a = map length b)"

definition unit_draws :: "rng \<Rightarrow> bool" where
  "unit_draws g = (\<forall>n. 0 \<le> g n \<and> g n < 1)"

text \<open>
  Two generators agree on their first \<open>n\<close> draws; a computation makes at most \<open>n\<close>
  draws when, on generators that agree on the first \<open>n\<close> draws, it returns the same
  value and drops the same number \<open>k \<le> n\<close> of draws.
\<close>

definition agree :: "nat \<Rightarrow> rng \<Rightarrow> rng \<Rightarrow> bool" where
  "agree n g g' = (\<forall>k<n. g k = g' k)"

definition draws_at_most :: "nat \<Rightarrow> (rng \<Rightarrow> 'b \<times> rng) \<Rightarrow> bool" where
  "draws_at_most n h =
     (\<forall>g. \<exists>k\<le>n. \<forall>g'. agree n g g' \<longrightarrow> h g' = (fst (h g), \<lambda>m. g' (m + k)))"

section \<open>Basic facts about the tracker's operations\<close>

lemma state_safeSetState:
  "state (safeSetState a t) = (if mounted t then state t ++ a else state t)"
  by (simp add: safeSetState_def useSafeDispatch_def setState_def reducer_def)

lemma frame_safeSetState:
  "mounted (safeSetState a t) = mounted t"
  "initialStateRef (safeSetState a t) = initialStateRef t"
  "reactions (safeSetState a t) = reactions t"
  by (simp_all add: safeSetState_def useSafeDispatch_def setState_def)

lemma field_safeSetState:
  "field k (safeSetState a t) =
     (if mounted t then (case a k of None \<Rightarrow> field k t | Some v \<Rightarrow> v) else field k t)"
  by (simp add: field_def state_safeSetState map_add_def split: option.splits)

lemma field_reactions_update: "field k (t\<lparr>reactions := rs\<rparr>) = field k t"
  by (simp add: field_def)

lemma run_cases:
  "snd (run p t) = t
   \<or> snd (run p t) = safeSetState [''status'' \<mapsto> Str ''pending''] t
   \<or> (\<exists>s. p = Promise s \<and>
        snd (run p t) =
          (safeSetState [''status'' \<mapsto> Str ''pending''] t)\<lparr>reactions := reactions t @ react s\<rparr>)"
  by (simp add: run_def Let_def frame_safeSetState split: sum.splits property.splits jsval.splits)

lemma run_Promise:
  "run (Promise s) t =
     (Inr (Promise (derived s)),
      (safeSetState [''status'' \<mapsto> Str ''pending''] t)\<lparr>reactions := reactions t @ react s\<rparr>)"
  by (simp add: run_def Let_def frame_safeSetState)

lemma field_run:
  "field k (snd (run p t)) = field k t
   \<or> (mounted t \<and> field k (snd (run p t)) = (if k = ''status'' then Str ''pending'' else field k t))"
  using run_cases [of p t]
  by (cases "mounted t") (auto simp: field_reactions_update field_safeSetState)

lemma frame_run:
  "mounted (snd (run p t)) = mounted t"
  "initialStateRef (snd (run p t)) = initialStateRef t"
  using run_cases [of p t] by (auto simp: frame_safeSetState)

lemma handler_eq:
  "snd (onFulfilled d t) = safeSetState [''data'' \<mapsto> d, ''status'' \<mapsto> Str ''resolved''] t"
  "snd (onRejected e t) = safeSetState [''status'' \<mapsto> Str ''rejected'', ''error'' \<mapsto> e] t"
  by (simp_all add: onFulfilled_def onRejected_def)

lemma frame_handler:
  "mounted (handler r t) = mounted t"
  "initialStateRef (handler r t) = initialStateRef t"
  "reactions (handler r t) = reactions t"
  by (cases r; simp add: handler_eq frame_safeSetState)+

lemma frame_settle:
  "mounted (settle r t) = mounted t"
  "initialStateRef (settle r t) = initialStateRef t"
  by (simp_all add: settle_def frame_handler)

lemma frame_step:
  "initialStateRef (step t e) = initialStateRef t"
  by (cases e) (simp_all add: attach_def detach_def frame_run setData_def setError_def reset_def
      frame_safeSetState frame_settle)

lemma initialStateRef_exec: "initialStateRef (exec evs t) = initialStateRef t"
  unfolding exec_def by (induction evs arbitrary: t) (simp_all add: frame_step)

lemma exec_snoc: "exec (evs @ [e]) t = step (exec evs t) e"
  by (simp add: exec_def)

lemma exec_Nil: "exec [] t = t"
  by (simp add: exec_def)

lemma exec_Cons: "exec (e # evs) t = exec evs (step t e)"
  by (simp add: exec_def)

lemma useAsync_sel:
  "state (useAsync ov) = defaultInitialState ++ ov"
  "initialStateRef (useAsync ov) = defaultInitialState ++ ov"
  "mounted (useAsync ov) = False"
  "reactions (useAsync ov) = []"
  by (simp_all add: useAsync_def Let_def)

section \<open>The derived flags\<close>

lemma status_step:
  assumes "status t \<in> statuses" and "initialStateRef t ''status'' = Some (Str ''idle'')"
  shows "status (step t e) \<in> statuses"
proof (cases e)
  case (Run p)
  then show ?thesis
    using assms(1) field_run [of "''status''" p t]
    by (auto simp: statuses_def)
next
  case (Settle r)
  then show ?thesis
    using assms(1)
    by (cases r; cases "mounted t")
      (simp_all add: settle_def handler_eq field_safeSetState field_reactions_update statuses_def)
next
  case Reset
  then show ?thesis
    using assms by (cases "mounted t") (simp_all add: reset_def field_safeSetState statuses_def)
next
  case (SetData d)
  then show ?thesis
    using assms(1) by (cases "mounted t") (simp_all add: setData_def field_safeSetState)
next
  case (SetError d)
  then show ?thesis
    using assms(1) by (cases "mounted t") (simp_all add: setError_def field_safeSetState)
qed (use assms(1) in \<open>simp_all add: attach_def detach_def field_def\<close>)

lemma status_exec_default: "status (exec evs (useAsync Map.empty)) \<in> statuses"
proof (induction evs rule: rev_induct)
  case Nil
  show ?case
    by (simp add: exec_Nil useAsync_sel field_def defaultInitialState_def statuses_def)
next
  case (snoc e evs)
  have "initialStateRef (exec evs (useAsync Map.empty)) ''status'' = Some (Str ''idle'')"
    by (simp add: initialStateRef_exec useAsync_sel defaultInitialState_def)
  with snoc show ?case
    by (simp add: exec_snoc status_step)
qed

text \<open>
  C1. From the default initial state, after any history of attach, detach, run, setData,
  setError, reset and settling promises, the status is one of idle, pending, rejected and
  resolved, each flag is true exactly when the status is its value, and exactly one of
  the four flags isIdle, isLoading, isError, isSuccess is true.
\<close>

theorem flags_exactly_one:
  fixes evs :: "event list"
  defines "t \<equiv> exec evs (useAsync Map.empty)"
  shows "length (filter id [isIdle t, isLoading t, isError t, isSuccess t]) = 1
    \<and> (isIdle t \<longleftrightarrow> status t = Str ''idle'')
    \<and> (isLoading t \<longleftrightarrow> status t = Str ''pending'')
    \<and> (isError t \<longleftrightarrow> status t = Str ''rejected'')
    \<and> (isSuccess t \<longleftrightarrow> status t = Str ''resolved'')
    \<and> status t \<in> {Str ''idle'', Str ''pending'', Str ''rejected'', Str ''resolved''}"
  using status_exec_default [of evs]
  by (auto simp: t_def statuses_def isIdle_def isLoading_def isError_def isSuccess_def)

lemmas eval_tracker =
  exec_Cons exec_Nil run_Promise setData_def setError_def reset_def attach_def detach_def
  settle_def handler_eq safeSetState_def useSafeDispatch_def setState_def reducer_def
  useAsync_def Let_def defaultInitialState_def field_def

section \<open>The outcome of the operation passed to \<^verbatim>\<open>run\<close>\<close>

lemma reactions_settle: "reactions (settle r t) = remove1 r (reactions t)"
  by (simp add: settle_def frame_handler remove1_idem)

lemma reactions_step:
  assumes "r \<in> set (reactions t)" and "e \<noteq> Settle r"
  shows "r \<in> set (reactions (step t e))"
proof (cases e)
  case (Run p)
  then show ?thesis
    using assms(1) run_cases [of p t] by (auto simp: frame_safeSetState)
next
  case (Settle r')
  then show ?thesis
    using assms by (simp add: reactions_settle)
qed (use assms(1) in \<open>simp_all add: attach_def detach_def setData_def setError_def reset_def
      frame_safeSetState\<close>)

lemma reactions_exec:
  assumes "r \<in> set (reactions t)" and "Settle r \<notin> set evs"
  shows "r \<in> set (reactions (exec evs t))"
  using assms
proof (induction evs rule: rev_induct)
  case Nil
  then show ?case by (simp add: exec_Nil)
next
  case (snoc e evs)
  then show ?case by (auto simp: exec_snoc intro: reactions_step)
qed

lemma settle_OnFulfilled:
  assumes "mounted t" and "OnFulfilled d \<in> set (reactions t)"
  shows "status (settle (OnFulfilled d) t) = Str ''resolved''"
    and "data (settle (OnFulfilled d) t) = d"
  using assms by (simp_all add: settle_def handler_eq field_safeSetState)

lemma settle_OnRejected:
  assumes "mounted t" and "OnRejected e \<in> set (reactions t)"
  shows "status (settle (OnRejected e) t) = Str ''rejected''"
    and "error (settle (OnRejected e) t) = e"
  using assms by (simp_all add: settle_def handler_eq field_safeSetState)

text \<open>
  C2. A promise that will settle as \<open>s\<close> is passed to \<^verbatim>\<open>run\<close>; any events \<open>evs\<close> follow
  in which the reaction of this call has not fired yet (other calls of run, setData,
  setError, reset, other promises settling, detach and attach), and the tracker is attached
  when the promise settles. Then \<^verbatim>\<open>run\<close> has thrown nothing, and right after the
  promise settles the status is resolved and data is \<open>X\<close> if it fulfilled with \<open>X\<close>, and the
  status is rejected and error is \<open>E\<close> if it rejected with \<open>E\<close>.
\<close>

theorem run_outcome_captured:
  assumes "mounted (exec evs (snd (run (Promise s) t)))"
    and "\<forall>r\<in>set (react s). Settle r \<notin> set evs"
  shows "(\<forall>e. fst (run (Promise s) t) \<noteq> Inl e)
    \<and> (\<forall>X. s = Fulfils X \<longrightarrow>
          (let t' = exec (evs @ [Settle (OnFulfilled X)]) (snd (run (Promise s) t))
           in status t' = Str ''resolved'' \<and> data t' = X))
    \<and> (\<forall>E. s = Rejects E \<longrightarrow>
          (let t' = exec (evs @ [Settle (OnRejected E)]) (snd (run (Promise s) t))
           in status t' = Str ''rejected'' \<and> error t' = E))"
proof -
  let ?t1 = "snd (run (Promise s) t)"
  have queued: "r \<in> set (reactions (exec evs ?t1))" if "r \<in> set (react s)" for r
  proof -
    from that have "r \<in> set (reactions ?t1)"
      by (simp add: run_Promise)
    moreover from that assms(2) have "Settle r \<notin> set evs"
      by blast
    ultimately show ?thesis
      by (rule reactions_exec)
  qed
  have "fst (run (Promise s) t) \<noteq> Inl e" for e
    by (simp add: run_Promise)
  moreover have "status (settle (OnFulfilled X) (exec evs ?t1)) = Str ''resolved''
      \<and> data (settle (OnFulfilled X) (exec evs ?t1)) = X" if "s = Fulfils X" for X
    using that assms(1) queued [of "OnFulfilled X"] by (simp add: settle_OnFulfilled)
  moreover have "status (settle (OnRejected E) (exec evs ?t1)) = Str ''rejected''
      \<and> error (settle (OnRejected E) (exec evs ?t1)) = E" if "s = Rejects E" for E
    using that assms(1) queued [of "OnRejected E"] by (simp add: settle_OnRejected)
  ultimately show ?thesis
    by (simp add: exec_snoc Let_def)
qed

theorem run_outcome_captured_witness:
  "status (exec [SetData (Str ''draft''), Settle (OnFulfilled (Num 42))]
      (snd (run (Promise (Fulfils (Num 42))) (attach (useAsync Map.empty))))) = Str ''resolved''
   \<and> data (exec [SetData (Str ''draft''), Settle (OnFulfilled (Num 42))]
      (snd (run (Promise (Fulfils (Num 42))) (attach (useAsync Map.empty))))) = Num 42
   \<and> status (exec [Detach, Attach, Settle (OnRejected (Str ''boom''))]
      (snd (run (Promise (Rejects (Str ''boom''))) (useAsync Map.empty)))) = Str ''rejected''
   \<and> error (exec [Detach, Attach, Settle (OnRejected (Str ''boom''))]
      (snd (run (Promise (Rejects (Str ''boom''))) (useAsync Map.empty)))) = Str ''boom''"
proof -
  have m1: "mounted (exec [SetData (Str ''draft'')]
      (snd (run (Promise (Fulfils (Num 42))) (attach (useAsync Map.empty)))))"
    by (simp add: eval_tracker)
  have n1: "\<forall>r\<in>set (react (Fulfils (Num 42))). Settle r \<notin> set [SetData (Str ''draft'')]"
    by simp
  have m2: "mounted (exec [Detach, Attach]
      (snd (run (Promise (Rejects (Str ''boom''))) (useAsync Map.empty))))"
    by (simp add: eval_tracker)
  have n2: "\<forall>r\<in>set (react (Rejects (Str ''boom''))). Settle r \<notin> set [Detach, Attach]"
    by simp
  show ?thesis
    using run_outcome_captured [OF m1 n1] run_outcome_captured [OF m2 n2]
    by (simp add: Let_def)
qed

section \<open>The guard of \<^verbatim>\<open>run\<close>\<close>

text \<open>
  C3, as stated, fails: the object \<^verbatim>\<open>{then: 1}\<close> is not awaitable, yet it passes the
  guard; on an attached tracker the status has gone from idle to pending when the call
  of its \<^verbatim>\<open>then\<close> raises a TypeError.
\<close>

theorem run_non_awaitable_counterexample:
  "\<not> awaitable (Obj [(''then'', Num 1)])
   \<and> fst (run (Obj [(''then'', Num 1)]) (attach (useAsync Map.empty))) = Inl TypeError
   \<and> status (attach (useAsync Map.empty)) = Str ''idle''
   \<and> status (snd (run (Obj [(''then'', Num 1)]) (attach (useAsync Map.empty)))) = Str ''pending''"
  by (simp add: run_def eval_tracker)

text \<open>
  C3, amended. For every argument that is falsy or whose \<^verbatim>\<open>then\<close> property is falsy,
  \<^verbatim>\<open>run\<close> throws its error synchronously and the tracker (status, data, error and all the
  rest) is exactly what it was before the call.
\<close>

theorem run_guard_before_state_change:
  assumes "rejected_by_guard p"
  shows "run p t = (Inl MustBePromise, t)"
  using assms
  by (cases "get_then p") (auto simp: rejected_by_guard_def run_def elim: get_then.elims)

theorem run_guard_before_state_change_witness:
  "run (Num 5) (attach (useAsync Map.empty)) = (Inl MustBePromise, attach (useAsync Map.empty))
   \<and> run Undefined (attach (useAsync Map.empty)) = (Inl MustBePromise, attach (useAsync Map.empty))
   \<and> run (Obj [(''then'', Num 0)]) (attach (useAsync Map.empty))
       = (Inl MustBePromise, attach (useAsync Map.empty))"
proof -
  have "rejected_by_guard (Num 5)" "rejected_by_guard Undefined"
    "rejected_by_guard (Obj [(''then'', Num 0)])"
    by (simp_all add: rejected_by_guard_def)
  then show ?thesis
    using run_guard_before_state_change by simp
qed

lemma run_accepted:
  assumes "\<not> rejected_by_guard p"
  shows "fst (run p t) \<noteq> Inl MustBePromise"
    and "state (snd (run p t)) = state (safeSetState [''status'' \<mapsto> Str ''pending''] t)"
proof -
  from assms obtain q where q: "truthy p" "get_then p = Inr q" "truthy_property q"
    by (cases "get_then p") (auto simp: rejected_by_guard_def elim: get_then.elims)
  then show "fst (run p t) \<noteq> Inl MustBePromise"
    and "state (snd (run p t)) = state (safeSetState [''status'' \<mapsto> Str ''pending''] t)"
    by (auto simp: run_def Let_def split: property.splits jsval.splits)
qed

text \<open>
  C10. \<^verbatim>\<open>run\<close> throws its guard error exactly for the arguments that are falsy or whose
  \<^verbatim>\<open>then\<close> property is falsy. For every other argument, callable \<^verbatim>\<open>then\<close> or not, it
  goes on to dispatch \<^verbatim>\<open>{status: 'pending'}\<close> through the safe dispatch: the status of an
  attached tracker becomes pending.
\<close>

theorem run_guard_exact:
  "(fst (run p t) = Inl MustBePromise \<longleftrightarrow> rejected_by_guard p)
   \<and> (\<not> rejected_by_guard p \<longrightarrow>
        state (snd (run p t)) = state (safeSetState [''status'' \<mapsto> Str ''pending''] t)
        \<and> status (snd (run p t)) = (if mounted t then Str ''pending'' else status t))"
proof (cases "rejected_by_guard p")
  case True
  then have "run p t = (Inl MustBePromise, t)"
    by (cases "get_then p") (auto simp: rejected_by_guard_def run_def elim: get_then.elims)
  with True show ?thesis by simp
next
  case False
  from run_accepted [OF this, of t] False show ?thesis
    by (simp add: field_def state_safeSetState)
qed

theorem run_guard_exact_witness:
  "rejected_by_guard (Str '''') \<and> fst (run (Str '''') (attach (useAsync Map.empty))) = Inl MustBePromise
   \<and> \<not> rejected_by_guard (Obj [(''then'', Num 1)])
   \<and> fst (run (Obj [(''then'', Num 1)]) (attach (useAsync Map.empty))) \<noteq> Inl MustBePromise
   \<and> status (snd (run (Obj [(''then'', Num 1)]) (attach (useAsync Map.empty)))) = Str ''pending''"
proof -
  have a: "rejected_by_guard (Str '''')" and b: "\<not> rejected_by_guard (Obj [(''then'', Num 1)])"
    by (simp_all add: rejected_by_guard_def)
  show ?thesis
    using a b run_guard_exact [of "Str ''''" "attach (useAsync Map.empty)"]
      run_guard_exact [of "Obj [(''then'', Num 1)]" "attach (useAsync Map.empty)"]
    by (simp add: attach_def)
qed

section \<open>The promise returned by \<^verbatim>\<open>run\<close>\<close>

text \<open>
  C4, as stated, fails for a rejection: the rejection handler returns the error, so the
  promise that \<^verbatim>\<open>run\<close> returns for a promise rejecting with \<^verbatim>\<open>'boom'\<close> is fulfilled
  with \<^verbatim>\<open>'boom'\<close>; it does not reject.
\<close>

theorem run_forwards_rejection_counterexample:
  "fst (run (Promise (Rejects (Str ''boom''))) (attach (useAsync Map.empty)))
     = Inr (Promise (Fulfils (Str ''boom'')))
   \<and> fst (run (Promise (Rejects (Str ''boom''))) (attach (useAsync Map.empty)))
     \<noteq> Inr (Promise (Rejects (Str ''boom'')))"
  by (simp add: run_Promise)

lemma resolve_value_plain: "\<not> awaitable v \<Longrightarrow> resolve_value v = Fulfils v"
  by (cases v) simp_all

text \<open>
  C4, amended. For a value \<open>v\<close> that is not itself a promise: the promise returned by
  \<^verbatim>\<open>run\<close> is fulfilled with \<open>v\<close> when the input fulfils with \<open>v\<close>, and it is fulfilled with
  \<open>v\<close> as well when the input rejects with \<open>v\<close>.
\<close>

theorem run_returns_fulfilling_promise:
  assumes "\<not> awaitable v"
  shows "fst (run (Promise (Fulfils v)) t) = Inr (Promise (Fulfils v))
    \<and> fst (run (Promise (Rejects v)) t) = Inr (Promise (Fulfils v))"
  using assms by (simp add: run_Promise resolve_value_plain)

theorem run_returns_fulfilling_promise_witness:
  "fst (run (Promise (Fulfils (Num 42))) (useAsync Map.empty)) = Inr (Promise (Fulfils (Num 42)))
   \<and> fst (run (Promise (Rejects (Num 42))) (useAsync Map.empty)) = Inr (Promise (Fulfils (Num 42)))"
proof -
  have "\<not> awaitable (Num 42)"
    by simp
  then show ?thesis
    by (rule run_returns_fulfilling_promise)
qed

section \<open>Detach, reset and the partial merge\<close>

lemma detached_step:
  assumes "\<not> mounted t" and "e \<noteq> Attach"
  shows "state (step t e) = state t \<and> \<not> mounted (step t e)"
proof (cases e)
  case (Run p)
  then show ?thesis
    using assms(1) run_cases [of p t] by (auto simp: state_safeSetState frame_safeSetState)
next
  case (Settle r)
  then show ?thesis
    using assms(1)
    by (cases r) (simp_all add: settle_def handler_eq state_safeSetState frame_safeSetState)
qed (use assms in \<open>simp_all add: detach_def setData_def setError_def reset_def
      state_safeSetState frame_safeSetState\<close>)

lemma detached_exec:
  assumes "\<not> mounted t" and "Attach \<notin> set evs"
  shows "state (exec evs t) = state t \<and> \<not> mounted (exec evs t)"
  using assms
proof (induction evs rule: rev_induct)
  case Nil
  then show ?case by (simp add: exec_Nil)
next
  case (snoc e evs)
  then show ?case
    using detached_step [of "exec evs t" e] by (auto simp: exec_snoc)
qed

text \<open>
  C5. After detach, and as long as the view is not attached again, no event changes the
  state: run, setData, setError, reset, and the fulfilment or rejection of any promise
  passed to run before the detach, leave status, data and error as they were.
\<close>

theorem detached_callbacks_are_no_ops:
  assumes "Attach \<notin> set evs"
  shows "state (exec evs (detach t)) = state t
    \<and> status (exec evs (detach t)) = status t
    \<and> data (exec evs (detach t)) = data t
    \<and> error (exec evs (detach t)) = error t"
proof -
  have "\<not> mounted (detach t)"
    by (simp add: detach_def)
  then have "state (exec evs (detach t)) = state (detach t)"
    using assms by (simp add: detached_exec)
  then show ?thesis
    by (simp add: field_def detach_def)
qed

theorem detached_callbacks_are_no_ops_witness:
  "status (exec [Settle (OnFulfilled (Num 1)), SetError (Str ''late''), Reset, Run (Promise Pends)]
     (detach (snd (run (Promise (Fulfils (Num 1))) (attach (useAsync Map.empty)))))) = Str ''pending''
   \<and> data (exec [Settle (OnFulfilled (Num 1)), SetError (Str ''late''), Reset, Run (Promise Pends)]
     (detach (snd (run (Promise (Fulfils (Num 1))) (attach (useAsync Map.empty)))))) = Null
   \<and> error (exec [Settle (OnFulfilled (Num 1)), SetError (Str ''late''), Reset, Run (Promise Pends)]
     (detach (snd (run (Promise (Fulfils (Num 1))) (attach (useAsync Map.empty)))))) = Null"
proof -
  have "Attach \<notin> set [Settle (OnFulfilled (Num 1)), SetError (Str ''late''), Reset, Run (Promise Pends)]"
    by simp
  from detached_callbacks_are_no_ops [OF this,
      of "snd (run (Promise (Fulfils (Num 1))) (attach (useAsync Map.empty)))"]
  show ?thesis
    by (simp add: run_Promise attach_def safeSetState_def useSafeDispatch_def setState_def
        reducer_def useAsync_def Let_def defaultInitialState_def field_def)
qed

lemma dom_safeSetState:
  assumes "dom (state t) \<subseteq> D" and "dom a \<subseteq> D"
  shows "dom (state (safeSetState a t)) \<subseteq> D"
  using assms by (simp add: state_safeSetState)

lemma dom_step:
  assumes "dom (state t) \<subseteq> dom (initialStateRef t)"
    and "{''status'', ''data'', ''error''} \<subseteq> dom (initialStateRef t)"
  shows "dom (state (step t e)) \<subseteq> dom (initialStateRef t)"
proof -
  have safe: "dom (state (safeSetState a t)) \<subseteq> dom (initialStateRef t)"
    if "dom a \<subseteq> dom (initialStateRef t)" for a
    using assms(1) that by (rule dom_safeSetState)
  show ?thesis
  proof (cases e)
    case (Run p)
    have "dom (state (safeSetState [''status'' \<mapsto> Str ''pending''] t)) \<subseteq> dom (initialStateRef t)"
      using assms(2) by (intro safe) simp
    moreover have "state (snd (run p t)) = state t
        \<or> state (snd (run p t)) = state (safeSetState [''status'' \<mapsto> Str ''pending''] t)"
      using run_cases [of p t] by auto
    ultimately show ?thesis
      using Run assms(1) by (elim disjE) simp_all
  next
    case (Settle r)
    have "dom (state (handler r (t\<lparr>reactions := remove1 r (reactions t)\<rparr>)))
        \<subseteq> dom (initialStateRef t)"
      using assms dom_safeSetState [of "t\<lparr>reactions := remove1 r (reactions t)\<rparr>"]
      by (cases r) (simp_all add: handler_eq)
    with Settle show ?thesis
      using assms(1) by (simp add: settle_def)
  next
    case (SetData d)
    then show ?thesis
      using assms(2) by (simp add: setData_def safe)
  next
    case (SetError d)
    then show ?thesis
      using assms(2) by (simp add: setError_def safe)
  next
    case Reset
    then show ?thesis
      by (simp add: reset_def safe)
  qed (use assms(1) in \<open>simp_all add: attach_def detach_def\<close>)
qed

lemma dom_exec:
  "dom (state (exec evs (useAsync ov))) \<subseteq> dom (defaultInitialState ++ ov)"
proof (induction evs rule: rev_induct)
  case Nil
  show ?case by (simp add: exec_Nil useAsync_sel)
next
  case (snoc e evs)
  have "{''status'', ''data'', ''error''} \<subseteq> dom (defaultInitialState ++ ov)"
    by (simp add: defaultInitialState_def)
  with snoc show ?case
    using dom_step [of "exec evs (useAsync ov)" e]
    by (simp add: exec_snoc initialStateRef_exec useAsync_sel)
qed

lemma map_add_absorb: "dom m \<subseteq> dom n \<Longrightarrow> m ++ n = n"
  by (rule ext) (auto simp: map_add_def split: option.splits)

text \<open>
  C6. Whatever overrides \<open>ov\<close> the tracker was constructed with and whatever happened
  since, reset on an attached tracker makes the state the snapshot taken at construction,
  the defaults overridden by \<open>ov\<close>: status, data and error read what they read right
  after construction.
\<close>

theorem reset_restores_snapshot:
  assumes "mounted (exec evs (useAsync ov))"
  shows "state (reset (exec evs (useAsync ov))) = defaultInitialState ++ ov
    \<and> status (reset (exec evs (useAsync ov))) = status (useAsync ov)
    \<and> data (reset (exec evs (useAsync ov))) = data (useAsync ov)
    \<and> error (reset (exec evs (useAsync ov))) = error (useAsync ov)"
proof -
  have "state (reset (exec evs (useAsync ov)))
      = state (exec evs (useAsync ov)) ++ (defaultInitialState ++ ov)"
    using assms by (simp add: reset_def state_safeSetState initialStateRef_exec useAsync_sel)
  also have "\<dots> = defaultInitialState ++ ov"
    using dom_exec by (rule map_add_absorb)
  finally show ?thesis
    by (simp add: field_def useAsync_sel)
qed

theorem reset_restores_snapshot_witness:
  "status (reset (exec [Attach, Run (Promise (Fulfils (Num 1))), Settle (OnFulfilled (Num 1)),
      SetError (Str ''stale'')] (useAsync [''data'' \<mapsto> Num 7]))) = Str ''idle''
   \<and> data (reset (exec [Attach, Run (Promise (Fulfils (Num 1))), Settle (OnFulfilled (Num 1)),
      SetError (Str ''stale'')] (useAsync [''data'' \<mapsto> Num 7]))) = Num 7
   \<and> error (reset (exec [Attach, Run (Promise (Fulfils (Num 1))), Settle (OnFulfilled (Num 1)),
      SetError (Str ''stale'')] (useAsync [''data'' \<mapsto> Num 7]))) = Null
   \<and> data (exec [Attach, Run (Promise (Fulfils (Num 1))), Settle (OnFulfilled (Num 1)),
      SetError (Str ''stale'')] (useAsync [''data'' \<mapsto> Num 7])) = Num 1"
proof -
  have m: "mounted (exec [Attach, Run (Promise (Fulfils (Num 1))), Settle (OnFulfilled (Num 1)),
      SetError (Str ''stale'')] (useAsync [''data'' \<mapsto> Num 7]))"
    by (simp add: exec_Cons exec_Nil frame_run setError_def frame_safeSetState frame_settle
        attach_def)
  have d: "data (exec [Attach, Run (Promise (Fulfils (Num 1))), Settle (OnFulfilled (Num 1)),
      SetError (Str ''stale'')] (useAsync [''data'' \<mapsto> Num 7])) = Num 1"
    by (simp add: eval_tracker)
  show ?thesis
    using reset_restores_snapshot [OF m] d
    by (simp add: field_def useAsync_sel defaultInitialState_def)
qed

text \<open>
  C7. The updates are partial merges. A call of run, accepted or not, changes neither data
  nor error; a fulfilment leaves error as it was; a rejection leaves data as it was;
  setData leaves status and error, and setError leaves status and data, as they were, and
  on an attached tracker each stores its argument in its own field.
\<close>

theorem partial_updates_frame:
  "data (snd (run p t)) = data t \<and> error (snd (run p t)) = error t
   \<and> error (settle (OnFulfilled d) t) = error t
   \<and> data (settle (OnRejected e) t) = data t
   \<and> status (setData d t) = status t \<and> error (setData d t) = error t
   \<and> status (setError e t) = status t \<and> data (setError e t) = data t
   \<and> data (setData d t) = (if mounted t then d else data t)
   \<and> error (setError e t) = (if mounted t then e else error t)"
proof -
  have "data (snd (run p t)) = data t" "error (snd (run p t)) = error t"
    using field_run [of "''data''" p t] field_run [of "''error''" p t] by auto
  moreover have "error (settle (OnFulfilled d) t) = error t"
    "data (settle (OnRejected e) t) = data t"
    by (simp_all add: settle_def handler_eq field_safeSetState field_reactions_update)
  ultimately show ?thesis
    by (simp add: setData_def setError_def field_safeSetState)
qed

section \<open>Facts about the grid helpers\<close>

lemma array_map_invariant:
  assumes "\<And>x i g y g'. P g \<Longrightarrow> x \<in> set xs \<Longrightarrow> f x i g = (y, g') \<Longrightarrow> P g' \<and> Q x i y"
    and "P g" and "array_map f i xs g = (ys, g')"
  shows "P g' \<and> length ys = length xs \<and> (\<forall>j<length xs. Q (xs ! j) (i + j) (ys ! j))"
  using assms
proof (induction xs arbitrary: i g ys g')
  case Nil
  then show ?case by simp
next
  case (Cons x xs)
  obtain y g1 where y: "f x i g = (y, g1)"
    by (cases "f x i g")
  obtain zs g2 where zs: "array_map f (Suc i) xs g1 = (zs, g2)"
    by (cases "array_map f (Suc i) xs g1")
  from Cons.prems(3) y zs have ys: "ys = y # zs" and g': "g' = g2"
    by simp_all
  from Cons.prems(1) [OF Cons.prems(2) _ y] have 1: "P g1" "Q x i y"
    by simp_all
  have "P g2 \<and> length zs = length xs \<and> (\<forall>j<length xs. Q (xs ! j) (Suc i + j) (zs ! j))"
  proof (rule Cons.IH)
    show "P g1" by fact
    show "array_map f (Suc i) xs g1 = (zs, g2)" by fact
    show "P h' \<and> Q a k b" if "P h" "a \<in> set xs" "f a k h = (b, h')" for a k h b h'
      using Cons.prems(1) [of h a k b h'] that by simp
  qed
  with 1(2) show ?case
    by (auto simp: ys g' nth_Cons split: nat.splits)
qed

lemma Math_random_unit:
  assumes "unit_draws g" and "Math_random g = (r, g')"
  shows "unit_draws g'" and "0 \<le> r" and "r < 1"
  using assms by (auto simp: unit_draws_def Math_random_def)

lemma updateCell_unit:
  assumes "unit_draws g" and "updateCell cell cI g = (y, g')"
  shows "unit_draws g' \<and> (y = cell \<or> 0 \<le> y \<and> y < 100)"
proof -
  obtain r g1 where 1: "Math_random g = (r, g1)"
    by (cases "Math_random g")
  obtain r' g2 where 2: "Math_random g1 = (r', g2)"
    by (cases "Math_random g1")
  from Math_random_unit [OF assms(1) 1] have u1: "unit_draws g1"
    by simp
  from Math_random_unit [OF u1 2] have u2: "unit_draws g2" "0 \<le> r'" "r' < 1"
    by simp_all
  from assms(2) 1 2 u1 u2 show ?thesis
    by (auto simp: updateCell_def split: if_splits)
qed

lemma same_shape_iff:
  "same_shape a b \<longleftrightarrow> length a = length b \<and> (\<forall>r<length b. length (a ! r) = length (b ! r))"
  by (auto simp: same_shape_def list_eq_iff_nth_eq)

lemma updateGridState_rows:
  assumes "unit_draws g" and "updateGridState grid g = (grid', g')"
  shows "unit_draws g' \<and> length grid' = length grid
    \<and> (\<forall>r<length grid. length (grid' ! r) = length (grid ! r)
          \<and> (\<forall>c<length (grid ! r). grid' ! r ! c = grid ! r ! c
                \<or> 0 \<le> grid' ! r ! c \<and> grid' ! r ! c < 100))"
proof -
  let ?Q = "\<lambda>cell (cI::nat) y. y = cell \<or> 0 \<le> y \<and> y < (100::real)"
  let ?R = "\<lambda>row (rI::nat) row'. length row' = length row
      \<and> (\<forall>c<length row. ?Q (row ! c) c (row' ! c))"
  have row: "unit_draws h' \<and> ?R row rI row'"
    if "unit_draws h" and "array_map updateCell 0 row h = (row', h')" for row and rI :: nat and h row' h'
    using array_map_invariant [where P = unit_draws and Q = ?Q and f = updateCell, OF _ that]
      updateCell_unit by auto
  have "unit_draws g' \<and> length grid' = length grid
      \<and> (\<forall>r<length grid. ?R (grid ! r) (0 + r) (grid' ! r))"
  proof (rule array_map_invariant [where P = unit_draws and Q = ?R])
    show "unit_draws g" by fact
    show "array_map (\<lambda>row rI. array_map updateCell 0 row) 0 grid g = (grid', g')"
      using assms(2) by (simp add: updateGridState_def)
  qed (use row in blast)
  then show ?thesis
    by simp
qed

lemma regenerate_unit:
  assumes "unit_draws g" and "regenerate column cell cI g = (y, g')"
  shows "unit_draws g'
    \<and> (if strict_equals_index cI column then 0 \<le> y \<and> y < 100 else y = cell)"
proof -
  obtain r g1 where 1: "Math_random g = (r, g1)"
    by (cases "Math_random g")
  from Math_random_unit [OF assms(1) 1] assms 1 show ?thesis
    by (auto simp: regenerate_def split: if_splits)
qed

lemma updateGridCellState_rows:
  assumes "unit_draws g" and "updateGridCellState grid (row, column) g = (grid', g')"
  shows "unit_draws g' \<and> length grid' = length grid
    \<and> (\<forall>r<length grid. length (grid' ! r) = length (grid ! r)
          \<and> (\<forall>c<length (grid ! r).
                if strict_equals_index r row \<and> strict_equals_index c column
                then 0 \<le> grid' ! r ! c \<and> grid' ! r ! c < 100
                else grid' ! r ! c = grid ! r ! c))"
proof -
  let ?Q = "\<lambda>cell cI y. if strict_equals_index cI column then 0 \<le> y \<and> y < (100::real) else y = cell"
  let ?R = "\<lambda>cells rI cells'. length cells' = length cells
      \<and> (\<forall>c<length cells. if strict_equals_index rI row \<and> strict_equals_index c column
            then 0 \<le> cells' ! c \<and> cells' ! c < (100::real) else cells' ! c = cells ! c)"
  have cells: "unit_draws h' \<and> ?R cells rI cells'"
    if "unit_draws h"
      and "(if strict_equals_index rI row then array_map (regenerate column) 0 cells h
            else (cells, h)) = (cells', h')" for cells rI h cells' h'
  proof (cases "strict_equals_index rI row")
    case True
    with that(2) have "array_map (regenerate column) 0 cells h = (cells', h')"
      by simp
    from array_map_invariant [where P = unit_draws and Q = ?Q and f = "regenerate column",
        OF _ that(1) this] regenerate_unit True
    show ?thesis by auto
  next
    case False
    with that show ?thesis by auto
  qed
  have "unit_draws g' \<and> length grid' = length grid
      \<and> (\<forall>r<length grid. ?R (grid ! r) (0 + r) (grid' ! r))"
  proof (rule array_map_invariant [where P = unit_draws and Q = ?R])
    show "unit_draws g" by fact
    show "array_map (\<lambda>cells rI g. if strict_equals_index rI row
        then array_map (regenerate column) 0 cells g else (cells, g)) 0 grid g = (grid', g')"
      using assms(2) by (simp add: updateGridCellState_def)
  qed (use cells in blast)
  then show ?thesis
    by simp
qed

lemma agree_refl: "agree n g g"
  by (simp add: agree_def)

lemma draws_at_mostD:
  assumes "draws_at_most n h"
  shows "\<exists>k\<le>n. \<forall>g'. agree n g g' \<longrightarrow> h g' = (fst (h g), \<lambda>m. g' (m + k))"
  using assms unfolding draws_at_most_def by blast

lemma draws_return: "draws_at_most 0 (\<lambda>g. (v, g))"
  by (simp add: draws_at_most_def)

lemma draws_Math_random: "draws_at_most 1 Math_random"
  unfolding draws_at_most_def
proof
  fix g
  have "\<forall>g'. agree 1 g g' \<longrightarrow> Math_random g' = (fst (Math_random g), \<lambda>m. g' (m + 1))"
    by (simp add: Math_random_def agree_def)
  then show "\<exists>k\<le>1. \<forall>g'. agree 1 g g' \<longrightarrow> Math_random g' = (fst (Math_random g), \<lambda>m. g' (m + k))"
    by blast
qed

lemma draws_bind:
  assumes "draws_at_most a h1" and "\<And>y. draws_at_most b (h2 y)"
  shows "draws_at_most (a + b) (\<lambda>g. case h1 g of (y, g1) \<Rightarrow> h2 y g1)"
  unfolding draws_at_most_def
proof
  fix g
  define y where "y = fst (h1 g)"
  obtain k1 where k1: "k1 \<le> a"
    and h1: "\<And>g'. agree a g g' \<Longrightarrow> h1 g' = (y, \<lambda>m. g' (m + k1))"
    using draws_at_mostD [OF assms(1), of g] unfolding y_def by blast
  define z where "z = fst (h2 y (\<lambda>m. g (m + k1)))"
  obtain k2 where k2: "k2 \<le> b"
    and h2: "\<And>g'. agree b (\<lambda>m. g (m + k1)) g' \<Longrightarrow> h2 y g' = (z, \<lambda>m. g' (m + k2))"
    using draws_at_mostD [OF assms(2) [of y], of "\<lambda>m. g (m + k1)"] unfolding z_def by blast
  have here: "(case h1 g of (y, g1) \<Rightarrow> h2 y g1) = (z, \<lambda>m. g (m + k2 + k1))"
    by (simp add: h1 [OF agree_refl] h2 [OF agree_refl])
  have "(case h1 g' of (y, g1) \<Rightarrow> h2 y g1)
      = (fst (case h1 g of (y, g1) \<Rightarrow> h2 y g1), \<lambda>m. g' (m + (k2 + k1)))"
    if ag: "agree (a + b) g g'" for g'
  proof -
    from ag have "agree a g g'"
      by (simp add: agree_def)
    then have 1: "h1 g' = (y, \<lambda>m. g' (m + k1))"
      by (rule h1)
    from ag k1 have "agree b (\<lambda>m. g (m + k1)) (\<lambda>m. g' (m + k1))"
      by (simp add: agree_def)
    then have "h2 y (\<lambda>m. g' (m + k1)) = (z, \<lambda>m. g' (m + k2 + k1))"
      by (rule h2)
    then show ?thesis
      by (simp add: 1 here add.assoc)
  qed
  with k1 k2 show "\<exists>k\<le>a + b. \<forall>g'. agree (a + b) g g'
      \<longrightarrow> (case h1 g' of (y, g1) \<Rightarrow> h2 y g1)
        = (fst (case h1 g of (y, g1) \<Rightarrow> h2 y g1), \<lambda>m. g' (m + k))"
    by (intro exI [of _ "k2 + k1"]) simp
qed

lemma draws_mono:
  assumes "draws_at_most n h" and "n \<le> m"
  shows "draws_at_most m h"
  unfolding draws_at_most_def
proof
  fix g
  obtain k where k: "k \<le> n"
    and h: "\<And>g'. agree n g g' \<Longrightarrow> h g' = (fst (h g), \<lambda>m. g' (m + k))"
    using draws_at_mostD [OF assms(1), of g] by blast
  have "agree n g g'" if "agree m g g'" for g'
    using that assms(2) by (simp add: agree_def)
  with k h assms(2) show "\<exists>k\<le>m. \<forall>g'. agree m g g' \<longrightarrow> h g' = (fst (h g), \<lambda>m. g' (m + k))"
    by (intro exI [of _ k]) simp
qed

lemma draws_array_map:
  assumes "\<And>x i. x \<in> set xs \<Longrightarrow> draws_at_most (c x) (f x i)"
  shows "draws_at_most (sum_list (map c xs)) (array_map f i xs)"
  using assms
proof (induction xs arbitrary: i)
  case Nil
  have "array_map f i [] = (\<lambda>g. ([], g))"
    by (rule ext) simp
  then show ?case
    by (simp add: draws_return)
next
  case (Cons x xs)
  have eq: "array_map f i (x # xs)
      = (\<lambda>g. case f x i g of (y, g1) \<Rightarrow>
          (case array_map f (Suc i) xs g1 of (ys, g2) \<Rightarrow> (\<lambda>g. (y # ys, g)) g2))"
    by (rule ext) (simp split: prod.splits)
  have tail: "draws_at_most (sum_list (map c xs) + 0)
      (\<lambda>g1. case array_map f (Suc i) xs g1 of (ys, g2) \<Rightarrow> (\<lambda>g. (y # ys, g)) g2)" for y
    using Cons by (intro draws_bind draws_return) simp_all
  have "draws_at_most (c x + sum_list (map c xs))
      (\<lambda>g. case f x i g of (y, g1) \<Rightarrow>
          (case array_map f (Suc i) xs g1 of (ys, g2) \<Rightarrow> (\<lambda>g. (y # ys, g)) g2))"
    using Cons.prems tail by (intro draws_bind) simp_all
  then show ?case
    by (simp add: eq)
qed

lemma draws_updateCell: "draws_at_most 2 (updateCell cell cI)"
proof -
  have eq: "updateCell cell cI
      = (\<lambda>g. case Math_random g of (r, g1) \<Rightarrow>
          (if r > 7 / 10
           then (\<lambda>g1. case Math_random g1 of (r', g2) \<Rightarrow> (\<lambda>g. (r' * 100, g)) g2)
           else (\<lambda>g1. (cell, g1))) g1)"
    by (rule ext) (simp add: updateCell_def split: prod.splits)
  have "draws_at_most (1 + 0) (\<lambda>g1. case Math_random g1 of (r', g2) \<Rightarrow> (\<lambda>g. (r' * 100, g)) g2)"
    by (intro draws_bind draws_Math_random draws_return)
  moreover have "draws_at_most 1 (\<lambda>g1. (cell, g1))"
    using draws_return by (rule draws_mono) simp
  ultimately have both: "draws_at_most (1 + 1) (\<lambda>g. case Math_random g of (r, g1) \<Rightarrow>
          (if r > 7 / 10
           then (\<lambda>g1. case Math_random g1 of (r', g2) \<Rightarrow> (\<lambda>g. (r' * 100, g)) g2)
           else (\<lambda>g1. (cell, g1))) g1)"
    by (intro draws_bind draws_Math_random) simp
  show ?thesis
    unfolding eq using both by (simp only: one_add_one)
qed

lemma draws_updateGridState:
  "draws_at_most (2 * length (concat grid)) (updateGridState grid)"
proof -
  have "draws_at_most (sum_list (map (\<lambda>row. 2 * length row) grid))
      (array_map (\<lambda>row rI. array_map updateCell 0 row) 0 grid)"
  proof (rule draws_array_map)
    fix row :: "real list" and rI :: nat
    have "draws_at_most (sum_list (map (\<lambda>cell. 2) row)) (array_map updateCell 0 row)"
      by (rule draws_array_map) (rule draws_updateCell)
    then show "draws_at_most (2 * length row) (array_map updateCell 0 row)"
      by (simp add: sum_list_triv mult.commute)
  qed
  moreover have "sum_list (map (\<lambda>row. 2 * length row) grid) = 2 * length (concat grid)"
    by (induction grid) simp_all
  ultimately show ?thesis
    by (simp add: updateGridState_def)
qed

lemma updateGridState_deterministic:
  assumes "agree (2 * length (concat grid)) g g'"
  shows "fst (updateGridState grid g') = fst (updateGridState grid g)"
proof -
  obtain k where "\<And>g'. agree (2 * length (concat grid)) g g'
      \<Longrightarrow> updateGridState grid g' = (fst (updateGridState grid g), \<lambda>m. g' (m + k))"
    using draws_at_mostD [OF draws_updateGridState, of grid g] by blast
  from this [OF assms] show ?thesis
    by simp
qed

text \<open>
  C8. With \<^verbatim>\<open>Math.random\<close> returning numbers in \<open>[0, 1)\<close>: the grid returned by
  \<^verbatim>\<open>updateGridCellState\<close> has the shape of the input; the cell whose row and column
  indices are strictly equal to the coordinates is a number in \<open>[0, 100)\<close>; every other
  cell is the input cell; and when no cell of the grid has these coordinates the result is
  the input grid. The function has no failing branch.
\<close>

theorem updateGridCellState_cells:
  assumes "unit_draws g"
  shows "same_shape (fst (updateGridCellState grid (row, column) g)) grid
    \<and> (\<forall>r c. in_grid grid r c \<longrightarrow>
          (if strict_equals_index r row \<and> strict_equals_index c column
           then 0 \<le> cell_at (fst (updateGridCellState grid (row, column) g)) r c
              \<and> cell_at (fst (updateGridCellState grid (row, column) g)) r c < 100
           else cell_at (fst (updateGridCellState grid (row, column) g)) r c = cell_at grid r c))
    \<and> ((\<forall>r c. in_grid grid r c \<longrightarrow> \<not> (strict_equals_index r row \<and> strict_equals_index c column))
          \<longrightarrow> fst (updateGridCellState grid (row, column) g) = grid)"
proof -
  obtain grid' g' where eq: "updateGridCellState grid (row, column) g = (grid', g')"
    by (cases "updateGridCellState grid (row, column) g")
  note rows = updateGridCellState_rows [OF assms eq]
  have shape: "same_shape grid' grid"
    using rows by (simp add: same_shape_iff)
  have cells: "if strict_equals_index r row \<and> strict_equals_index c column
      then 0 \<le> cell_at grid' r c \<and> cell_at grid' r c < 100
      else cell_at grid' r c = cell_at grid r c" if "in_grid grid r c" for r c
    using rows that unfolding in_grid_def cell_at_def by blast
  have "grid' = grid"
    if none: "\<forall>r c. in_grid grid r c \<longrightarrow> \<not> (strict_equals_index r row \<and> strict_equals_index c column)"
  proof (rule nth_equalityI)
    show "length grid' = length grid"
      using rows by simp
  next
    fix r assume "r < length grid'"
    then have r: "r < length grid"
      using rows by simp
    show "grid' ! r = grid ! r"
    proof (rule nth_equalityI)
      show "length (grid' ! r) = length (grid ! r)"
        using rows r by simp
    next
      fix c assume "c < length (grid' ! r)"
      then have "in_grid grid r c"
        using rows r by (simp add: in_grid_def)
      with cells [OF this] none show "grid' ! r ! c = grid ! r ! c"
        by (auto simp: cell_at_def)
    qed
  qed
  with shape cells show ?thesis
    by (simp add: eq)
qed

theorem updateGridCellState_cells_witness:
  "unit_draws (\<lambda>n. 1 / 4)
   \<and> in_grid [[1, 2], [3, 4]] 0 1
   \<and> 0 \<le> cell_at (fst (updateGridCellState [[1, 2], [3, 4]] (Num 0, Num 1) (\<lambda>n. 1 / 4))) 0 1
   \<and> cell_at (fst (updateGridCellState [[1, 2], [3, 4]] (Num 0, Num 1) (\<lambda>n. 1 / 4))) 0 1 < 100
   \<and> in_grid [[1, 2], [3, 4]] 1 1
   \<and> cell_at (fst (updateGridCellState [[1, 2], [3, 4]] (Num 0, Num 1) (\<lambda>n. 1 / 4))) 1 1 = 4
   \<and> fst (updateGridCellState [[1, 2], [3, 4]] (Num 0, Num 1) (\<lambda>n. 1 / 4)) = [[1, 25], [3, 4]]
   \<and> fst (updateGridCellState [[1, 2], [3, 4]] (Num 0, Num 2) (\<lambda>n. 1 / 4)) = [[1, 2], [3, 4]]"
proof -
  have u: "unit_draws (\<lambda>n. 1 / 4)"
    by (simp add: unit_draws_def)
  have a: "in_grid [[1, 2], [3, 4]] 0 1" and b: "in_grid [[1, 2], [3, 4]] 1 1"
    by (simp_all add: in_grid_def)
  have none: "\<forall>r c. in_grid [[1, 2], [3, 4]] r c
      \<longrightarrow> \<not> (strict_equals_index r (Num 0) \<and> strict_equals_index c (Num 2))"
    by (auto simp: in_grid_def less_Suc_eq numeral_2_eq_2)
  have ev: "fst (updateGridCellState [[1, 2], [3, 4]] (Num 0, Num 1) (\<lambda>n. 1 / 4))
      = [[1, 25], [3, 4]]"
    by (simp add: updateGridCellState_def regenerate_def Math_random_def)
  from updateGridCellState_cells [OF u, of "[[1, 2], [3, 4]]" "Num 0" "Num 1"]
    updateGridCellState_cells [OF u, of "[[1, 2], [3, 4]]" "Num 0" "Num 2"] u a b none ev
  show ?thesis
    by (simp add: cell_at_def)
qed

text \<open>
  C9. With \<^verbatim>\<open>Math.random\<close> returning numbers in \<open>[0, 1)\<close>: the grid returned by
  \<^verbatim>\<open>updateGridState\<close> has the shape of the input and each of its cells is the input
  cell or a number in \<open>[0, 100)\<close>. The result is a function of the random source: two
  sources that agree on their first \<open>2 * (number of cells)\<close> draws give the same grid.
\<close>

theorem updateGridState_cells:
  assumes "unit_draws g"
  shows "same_shape (fst (updateGridState grid g)) grid
    \<and> (\<forall>r c. in_grid grid r c \<longrightarrow>
          cell_at (fst (updateGridState grid g)) r c = cell_at grid r c
          \<or> 0 \<le> cell_at (fst (updateGridState grid g)) r c
            \<and> cell_at (fst (updateGridState grid g)) r c < 100)
    \<and> (\<forall>g'. agree (2 * length (concat grid)) g g'
          \<longrightarrow> fst (updateGridState grid g') = fst (updateGridState grid g))"
proof -
  obtain grid' g' where eq: "updateGridState grid g = (grid', g')"
    by (cases "updateGridState grid g")
  note rows = updateGridState_rows [OF assms eq]
  have "same_shape grid' grid"
    using rows by (simp add: same_shape_iff)
  moreover have "cell_at grid' r c = cell_at grid r c
      \<or> 0 \<le> cell_at grid' r c \<and> cell_at grid' r c < 100" if "in_grid grid r c" for r c
    using rows that unfolding in_grid_def cell_at_def by blast
  ultimately show ?thesis
    using updateGridState_deterministic [of grid g] by (simp add: eq)
qed

theorem updateGridState_cells_witness:
  "unit_draws (\<lambda>n. if n < 2 then 9 / 10 else 1 / 4)
   \<and> in_grid [[1, 2], [3, 4]] 0 0
   \<and> fst (updateGridState [[1, 2], [3, 4]] (\<lambda>n. if n < 2 then 9 / 10 else 1 / 4))
       = [[90, 2], [3, 4]]
   \<and> (cell_at (fst (updateGridState [[1, 2], [3, 4]] (\<lambda>n. if n < 2 then 9 / 10 else 1 / 4))) 0 0
         = cell_at [[1, 2], [3, 4]] 0 0
       \<or> 0 \<le> cell_at (fst (updateGridState [[1, 2], [3, 4]] (\<lambda>n. if n < 2 then 9 / 10 else 1 / 4))) 0 0
         \<and> cell_at (fst (updateGridState [[1, 2], [3, 4]] (\<lambda>n. if n < 2 then 9 / 10 else 1 / 4))) 0 0 < 100)
   \<and> agree (2 * length (concat [[1, 2], [3, 4 :: real]]))
       (\<lambda>n. if n < 2 then 9 / 10 else 1 / 4) (\<lambda>n. if n < 2 then 9 / 10 else if n < 8 then 1 / 4 else 5)
   \<and> fst (updateGridState [[1, 2], [3, 4]] (\<lambda>n. if n < 2 then 9 / 10 else if n < 8 then 1 / 4 else 5))
       = fst (updateGridState [[1, 2], [3, 4]] (\<lambda>n. if n < 2 then 9 / 10 else 1 / 4))"
proof -
  have u: "unit_draws (\<lambda>n. if n < 2 then 9 / 10 else 1 / 4)"
    by (simp add: unit_draws_def)
  have a: "in_grid [[1, 2], [3, 4]] 0 0"
    by (simp add: in_grid_def)
  have ag: "agree (2 * length (concat [[1, 2], [3, 4 :: real]]))
      (\<lambda>n. if n < 2 then 9 / 10 else 1 / 4) (\<lambda>n. if n < 2 then 9 / 10 else if n < 8 then 1 / 4 else 5)"
    by (simp add: agree_def)
  have ev: "fst (updateGridState [[1, 2], [3, 4]] (\<lambda>n. if n < 2 then 9 / 10 else 1 / 4))
      = [[90, 2], [3, 4]]"
    by (simp add: updateGridState_def updateCell_def Math_random_def)
  from updateGridState_cells [OF u, of "[[1, 2], [3, 4]]"] u a ag ev
  show ?thesis
    by simp
qed

end
